theory Spec2Isabelle
  imports Complex_Main "HOL-Library.AList" "HOL-Library.Word"
begin

unbundle bit_operations_syntax

section \<open>Data model\<close>

text \<open>
  The analysis engine of dupe-analyser (internal/analyser/analyser.go), the discovery
  routine of internal/source/source.go and the report model of internal/report/report.go.

  Modelling decisions.
  \<^item> A Go map with string keys is an association list with distinct keys; \<open>mget\<close> is the
    lookup \<open>m[k]\<close> with the zero value for a missing key, \<open>AList.update\<close> the store
    \<open>m[k] = v\<close>. A \<open>range\<close> loop is a recursion over the entries.
  \<^item> The counters of the engine (processed files, rows, keys) hold the number of
    increments made; line numbers and the counts of the report that come from list
    lengths are integers as well. Where the report reads the two atomic counters it
    takes them at their widths (\<open>int32\<close>, \<open>int64\<close>), and every sum of sizes is an
    int64 sum that wraps around (\<open>int64\<close>). A size is an int64 value.
  \<^item> The two averages of the summary are float64 values. The conversion of an integer
    to float64 and the float64 division are fields of \<open>gostd\<close>; a float64 is the
    real number it stands for.
  \<^item> The summary's FilesProcessed and TotalFiles are the fields \<open>SumFilesProcessed\<close>
    and \<open>SumTotalFiles\<close>, since FolderDetail has fields of the same names. The
    summary's two human-readable sizes and its elapsed time, which the engine does not
    compute from its state, are left out.
  \<^item> The functions of the Go standard library the engine calls on a row
    (json.Unmarshal, json.Marshal, the comma-ok map index, fmt.Sprintf with the verb v,
    filepath.Dir) are the fields of the record \<open>gostd\<close>, a parameter of the model.
    The decoded row (report.JSONData) is the type variable \<open>'d\<close>, a field value
    (interface) is \<open>'v\<close>.
  \<^item> A source is its path, its size and what reading it gives: whether Open fails,
    the tokens the line scanner yields, and whether the scanner ends with an error.
    Both implementations of InputSource compute Dir as filepath.Dir of Path.
  \<^item> The cancellable context is the number of polls of \<open>ctx.Done()\<close> that still
    see it open (\<open>None\<close>: never cancelled).
  \<^item> Run is modelled on one schedule: the sources are handled one after the other,
    in the order of the list. Each shared aggregate is guarded by its own mutex, so
    another interleaving of the workers changes only the order of the entries.
\<close>

type_synonym 'v gomap = "(string \<times> 'v) list"

definition int64 :: "int \<Rightarrow> int" where
  "int64 x = (x + 2 ^ 63) mod 2 ^ 64 - 2 ^ 63"

definition int32 :: "int \<Rightarrow> int" where
  "int32 x = (x + 2 ^ 31) mod 2 ^ 32 - 2 ^ 31"

definition mget :: "'v gomap \<Rightarrow> string \<Rightarrow> 'v \<Rightarrow> 'v" where
  "mget m k z = (case map_of m k of None \<Rightarrow> z | Some v \<Rightarrow> v)"

definition incr :: "string \<Rightarrow> int gomap \<Rightarrow> int gomap" where
  "incr k m = AList.update k (mget m k 0 + 1) m"

record LocationInfo =
  FilePath :: string
  LineNumber :: int

definition appendLoc :: "string \<Rightarrow> LocationInfo \<Rightarrow> LocationInfo list gomap \<Rightarrow> LocationInfo list gomap" where
  "appendLoc k loc m = AList.update k (mget m k [] @ [loc]) m"

record FolderDetail =
  ProcessedSizeBytes :: int
  TotalSizeBytes :: int
  FilesProcessed :: int
  TotalFiles :: int
  KeysFound :: int
  RowsProcessed :: int

definition zeroDetail :: FolderDetail where
  "zeroDetail = \<lparr>ProcessedSizeBytes = 0, TotalSizeBytes = 0, FilesProcessed = 0,
     TotalFiles = 0, KeysFound = 0, RowsProcessed = 0\<rparr>"

record SummaryReport =
  IsValidationReport :: bool
  IsPartialReport :: bool
  SumFilesProcessed :: int
  SumTotalFiles :: int
  ProcessedDataSizeBytes :: int
  TotalDataSizeOverallBytes :: int
  TotalRowsProcessed :: int
  UniqueKey :: string
  TotalKeyOccurrences :: int
  UniqueKeysDuplicated :: int
  DuplicateRowInstances :: int
  AverageRowsPerFile :: real
  AverageFilesPerFolder :: real
  DuplicateIDsPerFolder :: "int gomap"
  DuplicateRowsPerFolder :: "int gomap"
  FolderDetails :: "FolderDetail gomap"

record AnalysisReport =
  Summary :: SummaryReport
  DuplicateIDs :: "LocationInfo list gomap"
  DuplicateRows :: "LocationInfo list gomap"

record ('d, 'v) gostd =
  json_Unmarshal :: "string \<Rightarrow> 'd option"
  json_Marshal :: "'d \<Rightarrow> string"
  map_index :: "'d \<Rightarrow> string \<Rightarrow> 'v option"
  fmt_Sprint :: "'v \<Rightarrow> string"
  filepath_Dir :: "string \<Rightarrow> string"
  float64_of_int :: "int \<Rightarrow> real"
  float64_quot :: "real \<Rightarrow> real \<Rightarrow> real"

record InputSource =
  Path :: string
  Size :: int
  openFails :: bool
  tokens :: "string list"
  scanFails :: bool

definition Dir :: "('d, 'v) gostd \<Rightarrow> InputSource \<Rightarrow> string" where
  "Dir E s = filepath_Dir E (Path s)"

record Analyser =
  uniqueKey :: string
  numWorkers :: int
  checkKey :: bool
  checkRow :: bool
  ValidateOnly :: bool
  idLocations :: "LocationInfo list gomap"
  rowHashes :: "LocationInfo list gomap"
  keysFoundPerFolder :: "int gomap"
  rowsProcessedPerFolder :: "int gomap"
  ProcessedFiles :: int
  TotalRows :: int
  CurrentFolder :: "string option"
  processedPaths :: "bool gomap"

type_synonym Context = "nat option"

definition ctx_Done :: "Context \<Rightarrow> bool" where
  "ctx_Done c = (c = Some 0)"

definition ctx_tick :: "Context \<Rightarrow> Context" where
  "ctx_tick c = (case c of None \<Rightarrow> None | Some n \<Rightarrow> Some (n - 1))"

section \<open>The row hash\<close>

text \<open>hash/fnv New64a: start from the offset basis; for each byte, xor then multiply
  by the prime, in 64 bits. strconv.FormatUint in base 10.\<close>

definition fnv64a :: "string \<Rightarrow> 64 word" where
  "fnv64a bs = foldl (\<lambda>h c. (h XOR of_nat (of_char c)) * 1099511628211) 14695981039346656037 bs"

function FormatUint :: "int \<Rightarrow> string" where
  "FormatUint n = (if n < 10 then [char_of (48 + n)]
                   else FormatUint (n div 10) @ [char_of (48 + n mod 10)])"
  by pat_completeness auto
termination
  by (relation "measure nat") auto

definition hashString :: "('d, 'v) gostd \<Rightarrow> 'd \<Rightarrow> string" where
  "hashString E data = FormatUint (uint (fnv64a (json_Marshal E data)))"

section \<open>The engine\<close>

definition New :: "string \<Rightarrow> int \<Rightarrow> bool \<Rightarrow> bool \<Rightarrow> bool \<Rightarrow> Analyser" where
  "New key workers ck cr validateOnly =
     \<lparr>uniqueKey = key, numWorkers = workers, checkKey = ck, checkRow = cr,
      ValidateOnly = validateOnly, idLocations = [], rowHashes = [],
      keysFoundPerFolder = [], rowsProcessedPerFolder = [], ProcessedFiles = 0,
      TotalRows = 0, CurrentFolder = None, processedPaths = []\<rparr>"

definition GetUnprocessedSources :: "Analyser \<Rightarrow> InputSource list \<Rightarrow> InputSource list" where
  "GetUnprocessedSources a allSources =
     filter (\<lambda>s. \<not> mget (processedPaths a) (Path s) False) allSources"

definition hashRow :: "('d, 'v) gostd \<Rightarrow> 'd \<Rightarrow> LocationInfo \<Rightarrow> Analyser \<Rightarrow> Analyser" where
  "hashRow E data loc a =
     (if checkRow a \<and> \<not> ValidateOnly a
      then a\<lparr>rowHashes := appendLoc (hashString E data) loc (rowHashes a)\<rparr>
      else a)"

definition processRow :: "('d, 'v) gostd \<Rightarrow> 'd \<Rightarrow> string \<Rightarrow> int \<Rightarrow> Analyser \<Rightarrow> Analyser" where
  "processRow E data filePath lineNumber a =
     (if \<not> checkKey a then a
      else
        let loc = \<lparr>FilePath = filePath, LineNumber = lineNumber\<rparr> in
        (case map_index E data (uniqueKey a) of
           Some v \<Rightarrow>
             (let a1 = a\<lparr>keysFoundPerFolder :=
                         incr (filepath_Dir E filePath) (keysFoundPerFolder a)\<rparr>
              in if ValidateOnly a1 then a1
                 else hashRow E data loc
                        (a1\<lparr>idLocations := appendLoc (fmt_Sprint E v) loc (idLocations a1)\<rparr>))
         | None \<Rightarrow> hashRow E data loc a))"

text \<open>The scan loop of processSource. The result is the context, whether the loop was
  left by the cancellation check, and the state.\<close>

fun scanLoop :: "('d, 'v) gostd \<Rightarrow> InputSource \<Rightarrow> Context \<Rightarrow> int \<Rightarrow> string list \<Rightarrow> Analyser
    \<Rightarrow> Context \<times> bool \<times> Analyser" where
  "scanLoop E src c lineNumber [] a = (c, False, a)"
| "scanLoop E src c lineNumber (line # rest) a =
     (if lineNumber mod 1000 = 0 \<and> ctx_Done c then (c, True, a)
      else
        let c' = (if lineNumber mod 1000 = 0 then ctx_tick c else c);
            n = lineNumber + 1
        in if length line = 0 then scanLoop E src c' n rest a
           else
             let a1 = a\<lparr>TotalRows := TotalRows a + 1,
                        rowsProcessedPerFolder := incr (Dir E src) (rowsProcessedPerFolder a)\<rparr>
             in (case json_Unmarshal E line of
                   None \<Rightarrow> scanLoop E src c' n rest a1
                 | Some data \<Rightarrow> scanLoop E src c' n rest (processRow E data (Path src) n a1)))"

definition processSource :: "('d, 'v) gostd \<Rightarrow> Context \<Rightarrow> InputSource \<Rightarrow> Analyser \<Rightarrow> Context \<times> Analyser" where
  "processSource E c src a =
     (let a0 = a\<lparr>CurrentFolder := Some (Dir E src)\<rparr> in
      if openFails src then (c, a0)
      else
        (case scanLoop E src c 0 (tokens src) a0 of
           (c', cancelled, a1) \<Rightarrow>
             if cancelled then (c', a1)
             else if scanFails src then (c', a1)
             else (c', a1\<lparr>processedPaths := AList.update (Path src) True (processedPaths a1),
                           ProcessedFiles := ProcessedFiles a1 + 1\<rparr>)))"

fun worker :: "('d, 'v) gostd \<Rightarrow> Context \<Rightarrow> InputSource list \<Rightarrow> Analyser \<Rightarrow> Context \<times> Analyser" where
  "worker E c [] a = (c, a)"
| "worker E c (src # rest) a =
     (if ctx_Done c then (c, a)
      else (case processSource E (ctx_tick c) src a of (c', a') \<Rightarrow> worker E c' rest a'))"

section \<open>Report generation\<close>

fun idLoop :: "(string \<Rightarrow> string) \<Rightarrow> (string \<times> LocationInfo list) list
    \<Rightarrow> int \<times> int \<times> LocationInfo list gomap \<times> int gomap
    \<Rightarrow> int \<times> int \<times> LocationInfo list gomap \<times> int gomap" where
  "idLoop fd [] acc = acc"
| "idLoop fd ((ident, locations) # rest) (totalIDs, uniqueDup, dups, perFolder) =
     idLoop fd rest
       (totalIDs + int (length locations),
        (if length locations > 1
         then (uniqueDup + 1, AList.update ident locations dups,
               foldl (\<lambda>m loc. incr (fd (FilePath loc)) m) perFolder locations)
         else (uniqueDup, dups, perFolder)))"

fun rowLoop :: "(string \<Rightarrow> string) \<Rightarrow> (string \<times> LocationInfo list) list
    \<Rightarrow> int \<times> LocationInfo list gomap \<times> int gomap
    \<Rightarrow> int \<times> LocationInfo list gomap \<times> int gomap" where
  "rowLoop fd [] acc = acc"
| "rowLoop fd ((h, locations) # rest) (dupCount, dups, perFolder) =
     rowLoop fd rest
       (if length locations > 1
        then (dupCount + int (length locations), AList.update h locations dups,
              foldl (\<lambda>m loc. incr (fd (FilePath loc)) m) perFolder locations)
        else (dupCount, dups, perFolder))"

definition folderStep :: "('d, 'v) gostd \<Rightarrow> Analyser \<Rightarrow> FolderDetail gomap \<Rightarrow> InputSource \<Rightarrow> FolderDetail gomap" where
  "folderStep E a folderDetails s =
     (let dir = Dir E s;
          detail = mget folderDetails dir zeroDetail;
          sz = Size s;
          d1 = detail\<lparr>TotalFiles := TotalFiles detail + 1,
                      TotalSizeBytes := int64 (TotalSizeBytes detail + sz)\<rparr>;
          d2 = (if mget (processedPaths a) (Path s) False
                then d1\<lparr>FilesProcessed := FilesProcessed d1 + 1,
                        ProcessedSizeBytes := int64 (ProcessedSizeBytes d1 + sz)\<rparr>
                else d1);
          d3 = d2\<lparr>KeysFound := mget (keysFoundPerFolder a) dir 0,
                  RowsProcessed := mget (rowsProcessedPerFolder a) dir 0\<rparr>
      in AList.update dir d3 folderDetails)"

definition uniqueFolders :: "('d, 'v) gostd \<Rightarrow> InputSource list \<Rightarrow> bool gomap" where
  "uniqueFolders E sources = foldl (\<lambda>m s. AList.update (Dir E s) True m) [] sources"

definition generateReport :: "('d, 'v) gostd \<Rightarrow> InputSource list \<Rightarrow> bool \<Rightarrow> bool \<Rightarrow> Analyser \<Rightarrow> AnalysisReport" where
  "generateReport E sources wasCancelled isValidation a =
     (let (totalIDs0, uniqueDuplicateIDsCount, dupIDs, dupeIDsPerFolder) =
            (if checkKey a \<and> \<not> isValidation
             then idLoop (filepath_Dir E) (idLocations a) (0, 0, [], [])
             else (0, 0, [], []));
          (totalDuplicateRowsCount, dupRows, dupeRowsPerFolder) =
            (if checkRow a \<and> \<not> isValidation
             then rowLoop (filepath_Dir E) (rowHashes a) (0, [], [])
             else (0, [], []));
          folderDetails = foldl (folderStep E a) [] sources;
          totalOverallBytes = foldl (\<lambda>t s. int64 (t + Size s)) 0 sources;
          processedCount = int32 (ProcessedFiles a);
          processedBytes = foldl (\<lambda>t (d, detail). int64 (t + ProcessedSizeBytes detail)) 0 folderDetails;
          totalKeysFound = foldl (\<lambda>t (d, detail). t + KeysFound detail) 0 folderDetails;
          totalIDs = (if isValidation then totalKeysFound else totalIDs0);
          rowCount = int64 (TotalRows a);
          avgRows = (if processedCount > 0
                     then float64_quot E (float64_of_int E rowCount) (float64_of_int E processedCount)
                     else 0);
          nFolders = length (uniqueFolders E sources);
          avgFilesPerFolder = (if nFolders > 0
                               then float64_quot E (float64_of_int E (int (length sources)))
                                      (float64_of_int E (int nFolders))
                               else 0)
      in \<lparr>Summary =
            \<lparr>IsValidationReport = isValidation,
             IsPartialReport = wasCancelled,
             SumFilesProcessed = processedCount,
             SumTotalFiles = int (length sources),
             ProcessedDataSizeBytes = processedBytes,
             TotalDataSizeOverallBytes = totalOverallBytes,
             TotalRowsProcessed = rowCount,
             UniqueKey = uniqueKey a,
             TotalKeyOccurrences = totalIDs,
             UniqueKeysDuplicated = uniqueDuplicateIDsCount,
             DuplicateRowInstances = totalDuplicateRowsCount,
             AverageRowsPerFile = avgRows,
             AverageFilesPerFolder = avgFilesPerFolder,
             DuplicateIDsPerFolder = dupeIDsPerFolder,
             DuplicateRowsPerFolder = dupeRowsPerFolder,
             FolderDetails = folderDetails\<rparr>,
          DuplicateIDs = dupIDs,
          DuplicateRows = dupRows\<rparr>)"

text \<open>Run: a negative worker count makes the channel allocation panic (\<open>None\<close>); with
  no worker nothing is read and the report is built from the state as it is.\<close>

definition Run :: "('d, 'v) gostd \<Rightarrow> Context \<Rightarrow> InputSource list \<Rightarrow> Analyser
    \<Rightarrow> (Analyser \<times> AnalysisReport) option" where
  "Run E c sources a =
     (if numWorkers a < 0 then None
      else
        (case (if numWorkers a = 0 then (c, a) else worker E c sources a) of
           (c', a') \<Rightarrow>
             Some (a', generateReport E sources (ctx_Done c') (ValidateOnly a') a')))"

section \<open>Discovery\<close>

text \<open>DiscoverAll of internal/source/source.go. Discover reads the file system or the
  bucket, so it is a parameter (\<open>Inl\<close>: its error), as is strings.TrimSpace.\<close>

datatype 'e DiscoverError = ErrorInPath string 'e | NoProcessableFiles

fun addSources :: "InputSource list \<Rightarrow> InputSource list \<times> bool gomap \<Rightarrow> InputSource list \<times> bool gomap" where
  "addSources [] acc = acc"
| "addSources (s # ss) (uniqueSources, discoveredPaths) =
     (let canonicalPath = Path s in
      if \<not> mget discoveredPaths canonicalPath False
      then addSources ss (uniqueSources @ [s], AList.update canonicalPath True discoveredPaths)
      else addSources ss (uniqueSources, discoveredPaths))"

fun discoverLoop :: "(string \<Rightarrow> string) \<Rightarrow> (string \<Rightarrow> 'e + InputSource list) \<Rightarrow> string list
    \<Rightarrow> InputSource list \<times> bool gomap \<Rightarrow> 'e DiscoverError + InputSource list \<times> bool gomap" where
  "discoverLoop trim discover [] acc = Inr acc"
| "discoverLoop trim discover (p0 # ps) acc =
     (let p = trim p0 in
      if p = [] then discoverLoop trim discover ps acc
      else (case discover p of
              Inl err \<Rightarrow> Inl (ErrorInPath p err)
            | Inr sources \<Rightarrow> discoverLoop trim discover ps (addSources sources acc)))"

definition DiscoverAll :: "(string \<Rightarrow> string) \<Rightarrow> (string \<Rightarrow> 'e + InputSource list) \<Rightarrow> string list
    \<Rightarrow> 'e DiscoverError + InputSource list" where
  "DiscoverAll trim discover paths =
     (case discoverLoop trim discover paths ([], []) of
        Inl e \<Rightarrow> Inl e
      | Inr (uniqueSources, discoveredPaths) \<Rightarrow>
          if length uniqueSources = 0 then Inl NoProcessableFiles else Inr uniqueSources)"

section \<open>Concrete inputs\<close>

text \<open>An instance of the library functions, to run the model on concrete inputs. A row
  is a string: its first character is the name of its only field, the rest is the
  field's value. The line \<open>ba\<close> is the row \<open>ab\<close> with its text in another order, the
  line \<open>!\<close> does not decode. The folder of a path is what filepath.Dir gives for a
  cleaned path: the text before its last slash, a dot when it has no slash, the root for
  a file of the root. The float64 operations are exact: every number of the examples is
  one that float64 holds exactly.\<close>

definition dirOfPath :: "string \<Rightarrow> string" where
  "dirOfPath p =
     (if CHR ''/'' \<notin> set p then ''.''
      else let d = rev (drop 1 (dropWhile (\<lambda>c. c \<noteq> CHR ''/'') (rev p)))
           in if d = [] then ''/'' else d)"

definition toyStd :: "(string, string) gostd" where
  "toyStd = \<lparr>json_Unmarshal = (\<lambda>l. if l = ''ba'' then Some ''ab'' else if l = ''!'' then None else Some l),
     json_Marshal = (\<lambda>d. d),
     map_index = (\<lambda>d k. if k = take 1 d then Some (drop 1 d) else None),
     fmt_Sprint = (\<lambda>v. v),
     filepath_Dir = dirOfPath,
     float64_of_int = real_of_int,
     float64_quot = (\<lambda>x y. x / y)\<rparr>"

definition fileA :: InputSource where
  "fileA = \<lparr>Path = ''data/a/x.json'', Size = 3, openFails = False, tokens = [''ab''], scanFails = False\<rparr>"

definition fileB :: InputSource where
  "fileB = \<lparr>Path = ''data/y.json'', Size = 4, openFails = False, tokens = [''ab''], scanFails = False\<rparr>"

definition fileD :: InputSource where
  "fileD = \<lparr>Path = ''data/w.json'', Size = 6, openFails = False, tokens = [''ab''], scanFails = False\<rparr>"

section \<open>Invariants of discovery and of the folder loop\<close>

text \<open>The sources collected so far have distinct paths, all recorded as seen; a folder
  entry has no more processed files and bytes than files and bytes.\<close>

definition pathsSeen :: "InputSource list \<times> bool gomap \<Rightarrow> bool" where
  "pathsSeen acc = (distinct (map Path (fst acc)) \<and> list_all (\<lambda>s. mget (snd acc) (Path s) False) (fst acc))"

definition filesOK :: "string \<times> FolderDetail \<Rightarrow> bool" where
  "filesOK e = (FilesProcessed (snd e) \<le> TotalFiles (snd e))"

text \<open>The bytes of the sources of one folder, and the invariant of the folder loop while
  no int64 sum has wrapped: \<open>B d\<close> bounds the bytes added to folder \<open>d\<close> so far.\<close>

definition folderBytes :: "('d, 'v) gostd \<Rightarrow> string \<Rightarrow> InputSource list \<Rightarrow> int" where
  "folderBytes E d srcs = (\<Sum>s\<leftarrow>filter (\<lambda>s. Dir E s = d) srcs. Size s)"

definition bytesOK :: "(string \<Rightarrow> int) \<Rightarrow> string \<times> FolderDetail \<Rightarrow> bool" where
  "bytesOK B e = (0 \<le> ProcessedSizeBytes (snd e) \<and>
                  ProcessedSizeBytes (snd e) \<le> TotalSizeBytes (snd e) \<and>
                  TotalSizeBytes (snd e) \<le> B (fst e))"

text \<open>Two sources of one folder whose sizes sum to \<open>2 ^ 63\<close>; the second cannot be
  opened.\<close>

definition hugeA :: InputSource where
  "hugeA = \<lparr>Path = ''data/h1.json'', Size = 2 ^ 62, openFails = False, tokens = [''ab''], scanFails = False\<rparr>"

definition hugeB :: InputSource where
  "hugeB = \<lparr>Path = ''data/h2.json'', Size = 2 ^ 62, openFails = True, tokens = [''ab''], scanFails = False\<rparr>"


section \<open>The scan as a fold\<close>

text \<open>What the scan loop does with one non-empty line, the numbering of the lines of a
  source, and how many tokens a scan reads before its cancellation check stops it: the
  check stands before every token whose line number so far is a multiple of 1000, and
  \<open>r\<close> tokens come before the first check.\<close>

definition lineStep :: "('d, 'v) gostd \<Rightarrow> InputSource \<Rightarrow> Analyser \<Rightarrow> int \<times> string \<Rightarrow> Analyser" where
  "lineStep E src a nl =
     (case nl of (n, line) \<Rightarrow>
        (let a1 = a\<lparr>TotalRows := TotalRows a + 1,
                    rowsProcessedPerFolder := incr (Dir E src) (rowsProcessedPerFolder a)\<rparr>
         in case json_Unmarshal E line of
              None \<Rightarrow> a1
            | Some data \<Rightarrow> processRow E data (Path src) n a1))"

primrec numberFrom :: "int \<Rightarrow> string list \<Rightarrow> (int \<times> string) list" where
  "numberFrom n [] = []"
| "numberFrom n (l # ls) = (n + 1, l) # numberFrom (n + 1) ls"

definition scannedCount :: "Context \<Rightarrow> nat \<Rightarrow> nat \<Rightarrow> nat" where
  "scannedCount c r L = (case c of None \<Rightarrow> L | Some k \<Rightarrow> min L (r + 1000 * k))"

definition cancelSeen :: "Context \<Rightarrow> nat \<Rightarrow> nat \<Rightarrow> bool" where
  "cancelSeen c r L = (case c of None \<Rightarrow> False | Some k \<Rightarrow> r + 1000 * k < L)"

definition nonEmpty :: "int \<times> string \<Rightarrow> bool" where
  "nonEmpty nl = (snd nl \<noteq> [])"


definition scanResult :: "('d, 'v) gostd \<Rightarrow> InputSource \<Rightarrow> Context \<Rightarrow> Analyser \<Rightarrow> Analyser" where
  "scanResult E src c a =
     foldl (lineStep E src) (a\<lparr>CurrentFolder := Some (Dir E src)\<rparr>)
       (filter nonEmpty (take (scannedCount c 0 (length (tokens src))) (numberFrom 0 (tokens src))))"





text \<open>The number of rows of a source: its non-empty lines.\<close>

definition rowsOf :: "InputSource \<Rightarrow> int" where
  "rowsOf s = int (length (filter (\<lambda>l. l \<noteq> []) (tokens s)))"

text \<open>A source with two lines that are one row in two field orders, whose stream
  ends with a read error.\<close>

definition fileC :: InputSource where
  "fileC = \<lparr>Path = ''data/a/z.json'', Size = 5, openFails = False, tokens = [''ab'', ''ba''], scanFails = True\<rparr>"







text \<open>A source of 1001 lines: the first row has the field \<open>a\<close>, the others do not.\<close>

definition bigFile :: InputSource where
  "bigFile = \<lparr>Path = ''d/big'', Size = 5000, openFails = False,
      tokens = ''ab'' # replicate 1000 ''xy'', scanFails = False\<rparr>"

section \<open>Facts about maps\<close>

lemma int64_id: "- 9223372036854775808 \<le> x \<Longrightarrow> x < 9223372036854775808 \<Longrightarrow> int64 x = x"
  by (simp add: int64_def)

lemma int32_id: "- 2147483648 \<le> x \<Longrightarrow> x < 2147483648 \<Longrightarrow> int32 x = x"
  by (simp add: int32_def)

lemmas run_defs = Run_def New_def toyStd_def dirOfPath_def int64_id int32_id processSource_def
  processRow_def Dir_def incr_def mget_def ctx_Done_def ctx_tick_def generateReport_def
  folderStep_def zeroDetail_def uniqueFolders_def fileA_def fileB_def fileC_def fileD_def
  rowsOf_def hashRow_def appendLoc_def Let_def GetUnprocessedSources_def

lemma mget_update: "mget (AList.update k v m) k' z = (if k' = k then v else mget m k' z)"
  by (simp add: mget_def update_conv')

lemma mget_incr: "mget (incr k m) k' 0 = (if k' = k then mget m k 0 + 1 else mget m k' 0)"
  by (simp add: incr_def mget_update)

lemma mget_Nil: "mget [] k z = z"
  by (simp add: mget_def)

lemma set_update_cases:
  "(k', v') \<in> set (AList.update k v m) \<Longrightarrow> (k', v') = (k, v) \<or> (k', v') \<in> set m"
  by (induction m) (auto split: if_splits)

lemma mget_cases: "mget m k z = z \<or> (k, mget m k z) \<in> set m"
  by (auto simp: mget_def split: option.splits dest: map_of_SomeD)

section \<open>Discovery returns every path once\<close>

lemma addSources_inv: "pathsSeen acc \<Longrightarrow> pathsSeen (addSources ss acc)"
proof (induction ss acc rule: addSources.induct)
  case (1 acc)
  then show ?case by simp
next
  case (2 s ss us seen)
  show ?case
  proof (cases "mget seen (Path s) False")
    case True
    with 2 show ?thesis by simp
  next
    case False
    have "pathsSeen (us @ [s], AList.update (Path s) True seen)"
      using "2.prems" False by (auto simp: pathsSeen_def mget_update list_all_iff)
    with 2 False show ?thesis by simp
  qed
qed

lemma discoverLoop_inv:
  "pathsSeen acc \<Longrightarrow> discoverLoop trim discover ps acc = Inr acc' \<Longrightarrow> pathsSeen acc'"
proof (induction ps arbitrary: acc)
  case Nil
  then show ?case by simp
next
  case (Cons p0 ps)
  show ?case
  proof (cases "trim p0 = []")
    case True
    with Cons show ?thesis by simp
  next
    case False
    with Cons.prems obtain sources where d: "discover (trim p0) = Inr sources"
      and l: "discoverLoop trim discover ps (addSources sources acc) = Inr acc'"
      by (auto simp: Let_def split: sum.splits)
    from Cons.IH [OF addSources_inv [OF Cons.prems(1)] l] show ?thesis .
  qed
qed

text \<open>C9. Whatever Discover returns for each root, and however the roots overlap, the
  list DiscoverAll returns holds no two sources with the same Path (the absolute path
  of a local file, the gs URI of an object).\<close>

theorem DiscoverAll_distinct_paths:
  "DiscoverAll trim discover paths = Inr sources \<Longrightarrow> distinct (map Path sources)"
proof -
  assume r: "DiscoverAll trim discover paths = Inr sources"
  have start: "pathsSeen ([], [])" by (simp add: pathsSeen_def)
  from r obtain seen where "discoverLoop trim discover paths ([], []) = Inr (sources, seen)"
    by (auto simp: DiscoverAll_def split: sum.splits prod.splits if_splits)
  from discoverLoop_inv [OF start this] show ?thesis by (simp add: pathsSeen_def)
qed

theorem DiscoverAll_distinct_paths_witness:
  "DiscoverAll (\<lambda>p. p)
       (\<lambda>p. if p = ''data'' then Inr [fileA, fileB]
            else if p = ''data/a'' then Inr [fileA] else Inl ''invalid path'')
       [''data/a'', ''data''] = Inr [fileA, fileB]
   \<and> distinct (map Path [fileA, fileB])"
proof -
  have e: "DiscoverAll (\<lambda>p. p)
       (\<lambda>p. if p = ''data'' then Inr [fileA, fileB]
            else if p = ''data/a'' then Inr [fileA] else Inl ''invalid path'')
       [''data/a'', ''data''] = Inr [fileA, fileB]"
    by (simp add: DiscoverAll_def mget_def fileA_def fileB_def Let_def)
  from DiscoverAll_distinct_paths [OF e] e show ?thesis by simp
qed

section \<open>Row classification\<close>

text \<open>C1. With the key check off and the row check on, outside validation mode, a
  source with two equal rows is scanned to its end and no row is hashed: processRow
  returns at its first statement. The by-hash groups stay empty and the report lists
  no duplicate row.\<close>

theorem row_check_skipped_without_key_check:
  "map_option (\<lambda>(a, rep). (rowHashes a, DuplicateRows rep, TotalRows a, ProcessedFiles a))
     (Run toyStd None
        [\<lparr>Path = ''d/f1'', Size = 10, openFails = False, tokens = [''ab'', ''ab''], scanFails = False\<rparr>]
        (New ''a'' 8 False True False)) = Some ([], [], 2, 1)"
  by (simp add: run_defs)

section \<open>The scan loop\<close>

lemma poll_now: "(n + int r) mod 1000 = 0 \<Longrightarrow> r < 1000 \<Longrightarrow> (n mod 1000 = 0) = (r = 0)"
proof
  assume a: "(n + int r) mod 1000 = 0" "r < 1000" "n mod 1000 = 0"
  have "(n + int r) mod 1000 = (n mod 1000 + int r) mod 1000" by (simp add: mod_add_left_eq)
  with a have "int r mod 1000 = 0" by simp
  with a(2) show "r = 0" by simp
next
  assume "(n + int r) mod 1000 = 0" "r = 0"
  then show "n mod 1000 = 0" by simp
qed

lemma poll_next0: "(n::int) mod 1000 = 0 \<Longrightarrow> (n + 1 + int 999) mod 1000 = 0"
proof -
  assume a: "n mod 1000 = 0"
  have "(n + 1 + int 999) mod 1000 = (n mod 1000 + 1000) mod 1000"
    by (simp add: mod_add_left_eq)
  with a show ?thesis by simp
qed

lemma poll_next: "(n + int r) mod 1000 = 0 \<Longrightarrow> 0 < r \<Longrightarrow> (n + 1 + int (r - 1)) mod 1000 = 0"
proof -
  assume a: "(n + int r) mod 1000 = 0" "0 < r"
  then have "n + 1 + int (r - 1) = n + int r" by simp
  with a show ?thesis by simp
qed

lemma scanLoop_cancel:
  "n mod 1000 = 0 \<Longrightarrow> ctx_Done c \<Longrightarrow> scanLoop E src c n (line # rest) a = (c, True, a)"
  by simp

lemma scanLoop_step:
  "\<not> (n mod 1000 = 0 \<and> ctx_Done c) \<Longrightarrow>
   scanLoop E src c n (line # rest) a =
     scanLoop E src (if n mod 1000 = 0 then ctx_tick c else c) (n + 1) rest
       (if line = [] then a else lineStep E src a (n + 1, line))"
  by (simp add: lineStep_def Let_def split: option.splits)

lemma fold_first:
  "foldl (lineStep E src) a (filter nonEmpty ((m, line) # xs)) =
   foldl (lineStep E src) (if line = [] then a else lineStep E src a (m, line)) (filter nonEmpty xs)"
  by (simp add: nonEmpty_def)

lemma scanLoop_char:
  "(n + int r) mod 1000 = 0 \<Longrightarrow> r < 1000 \<Longrightarrow>
   snd (scanLoop E src c n ls a) =
     (cancelSeen c r (length ls),
      foldl (lineStep E src) a
        (filter nonEmpty (take (scannedCount c r (length ls)) (numberFrom n ls))))"
proof (induction ls arbitrary: n r c a)
  case Nil
  then show ?case by (simp add: cancelSeen_def scannedCount_def split: option.splits)
next
  case (Cons line rest)
  show ?case
  proof (cases "r = 0")
    case True
    then have n0: "n mod 1000 = 0" using Cons.prems by simp
    show ?thesis
    proof (cases "ctx_Done c")
      case True
      then have "c = Some 0" by (simp add: ctx_Done_def)
      with n0 \<open>r = 0\<close> show ?thesis
        by (simp add: ctx_Done_def cancelSeen_def scannedCount_def)
    next
      case False
      have ih: "snd (scanLoop E src (ctx_tick c) (n + 1) rest b) =
        (cancelSeen (ctx_tick c) 999 (length rest),
         foldl (lineStep E src) b
           (filter nonEmpty (take (scannedCount (ctx_tick c) 999 (length rest)) (numberFrom (n + 1) rest))))" for b
        using Cons.IH [of "n + 1" 999 "ctx_tick c" b] poll_next0 [OF n0] by simp
      have cs: "cancelSeen c r (length (line # rest)) = cancelSeen (ctx_tick c) 999 (length rest)"
        using False \<open>r = 0\<close> by (cases c) (auto simp: cancelSeen_def ctx_tick_def ctx_Done_def)
      have sc: "scannedCount c r (length (line # rest)) = Suc (scannedCount (ctx_tick c) 999 (length rest))"
        using False \<open>r = 0\<close> by (cases c) (auto simp: scannedCount_def ctx_tick_def ctx_Done_def)
      have st: "scanLoop E src c n (line # rest) a =
          scanLoop E src (ctx_tick c) (n + 1) rest (if line = [] then a else lineStep E src a (n + 1, line))"
        using scanLoop_step [of n c E src line rest a] False n0 by simp
      show ?thesis
        unfolding st ih cs sc numberFrom.simps take_Suc_Cons fold_first ..
    qed
  next
    case False
    then have n0: "n mod 1000 \<noteq> 0" using Cons.prems poll_now by simp
    have ih: "snd (scanLoop E src c (n + 1) rest b) =
        (cancelSeen c (r - 1) (length rest),
         foldl (lineStep E src) b
           (filter nonEmpty (take (scannedCount c (r - 1) (length rest)) (numberFrom (n + 1) rest))))" for b
      using Cons.IH [of "n + 1" "r - 1" c b] poll_next [OF Cons.prems(1)] False Cons.prems(2) by simp
    have cs: "cancelSeen c r (length (line # rest)) = cancelSeen c (r - 1) (length rest)"
      using False by (cases c) (auto simp: cancelSeen_def)
    have sc: "scannedCount c r (length (line # rest)) = Suc (scannedCount c (r - 1) (length rest))"
      using False by (cases c) (auto simp: scannedCount_def)
    have st: "scanLoop E src c n (line # rest) a =
          scanLoop E src c (n + 1) rest (if line = [] then a else lineStep E src a (n + 1, line))"
      using scanLoop_step [of n c E src line rest a] n0 by simp
    show ?thesis
      unfolding st ih cs sc numberFrom.simps take_Suc_Cons fold_first ..
  qed
qed

lemma processRow_frame:
  "processedPaths (processRow E d p n a) = processedPaths a"
  "ProcessedFiles (processRow E d p n a) = ProcessedFiles a"
  "TotalRows (processRow E d p n a) = TotalRows a"
  "rowsProcessedPerFolder (processRow E d p n a) = rowsProcessedPerFolder a"
  "checkKey (processRow E d p n a) = checkKey a"
  "checkRow (processRow E d p n a) = checkRow a"
  "ValidateOnly (processRow E d p n a) = ValidateOnly a"
  "uniqueKey (processRow E d p n a) = uniqueKey a"
  "numWorkers (processRow E d p n a) = numWorkers a"
  by (simp_all add: processRow_def hashRow_def Let_def split: option.splits)

lemma lineStep_frame:
  "processedPaths (lineStep E src a nl) = processedPaths a"
  "ProcessedFiles (lineStep E src a nl) = ProcessedFiles a"
  "TotalRows (lineStep E src a nl) = TotalRows a + 1"
  "rowsProcessedPerFolder (lineStep E src a nl) = incr (Dir E src) (rowsProcessedPerFolder a)"
  "checkKey (lineStep E src a nl) = checkKey a"
  "checkRow (lineStep E src a nl) = checkRow a"
  "ValidateOnly (lineStep E src a nl) = ValidateOnly a"
  "uniqueKey (lineStep E src a nl) = uniqueKey a"
  "numWorkers (lineStep E src a nl) = numWorkers a"
  by (simp_all add: lineStep_def processRow_frame Let_def split: option.splits prod.splits)

lemma foldl_lineStep_frame:
  "processedPaths (foldl (lineStep E src) a xs) = processedPaths a"
  "ProcessedFiles (foldl (lineStep E src) a xs) = ProcessedFiles a"
  "TotalRows (foldl (lineStep E src) a xs) = TotalRows a + int (length xs)"
  "mget (rowsProcessedPerFolder (foldl (lineStep E src) a xs)) (Dir E src) 0 =
     mget (rowsProcessedPerFolder a) (Dir E src) 0 + int (length xs)"
  "checkKey (foldl (lineStep E src) a xs) = checkKey a"
  "checkRow (foldl (lineStep E src) a xs) = checkRow a"
  "ValidateOnly (foldl (lineStep E src) a xs) = ValidateOnly a"
  "uniqueKey (foldl (lineStep E src) a xs) = uniqueKey a"
  "numWorkers (foldl (lineStep E src) a xs) = numWorkers a"
  by (induction xs arbitrary: a) (simp_all add: lineStep_frame mget_incr)

lemma scanResult_frame:
  "processedPaths (scanResult E src c a) = processedPaths a"
  "ProcessedFiles (scanResult E src c a) = ProcessedFiles a"
  "checkKey (scanResult E src c a) = checkKey a"
  "checkRow (scanResult E src c a) = checkRow a"
  "ValidateOnly (scanResult E src c a) = ValidateOnly a"
  "uniqueKey (scanResult E src c a) = uniqueKey a"
  "numWorkers (scanResult E src c a) = numWorkers a"
  by (simp_all add: scanResult_def foldl_lineStep_frame)

lemma snd_scanLoop_0:
  "snd (scanLoop E src c 0 ls a) =
     (cancelSeen c 0 (length ls),
      foldl (lineStep E src) a (filter nonEmpty (take (scannedCount c 0 (length ls)) (numberFrom 0 ls))))"
  using scanLoop_char [of 0 0 E src c ls a] by simp

lemma snd_processSource:
  "snd (processSource E c src a) =
     (if openFails src then a\<lparr>CurrentFolder := Some (Dir E src)\<rparr>
      else if cancelSeen c 0 (length (tokens src)) \<or> scanFails src then scanResult E src c a
      else (scanResult E src c a)
             \<lparr>processedPaths := AList.update (Path src) True (processedPaths (scanResult E src c a)),
              ProcessedFiles := ProcessedFiles (scanResult E src c a) + 1\<rparr>)"
proof -
  obtain c' f a1 where r: "scanLoop E src c 0 (tokens src) (a\<lparr>CurrentFolder := Some (Dir E src)\<rparr>) = (c', f, a1)"
    by (cases "scanLoop E src c 0 (tokens src) (a\<lparr>CurrentFolder := Some (Dir E src)\<rparr>)") auto
  from snd_scanLoop_0 [of E src c "tokens src" "a\<lparr>CurrentFolder := Some (Dir E src)\<rparr>"] r
  have "f = cancelSeen c 0 (length (tokens src))" "a1 = scanResult E src c a"
    by (simp_all add: scanResult_def)
  with r show ?thesis by (simp add: processSource_def Let_def)
qed

lemma scanLoop_None: "fst (scanLoop E src None n ls a) = None"
  by (induction ls arbitrary: n a) (simp_all add: ctx_Done_def ctx_tick_def Let_def split: option.splits)

lemma processSource_None: "fst (processSource E None src a) = None"
proof -
  obtain c' f a1 where r: "scanLoop E src None 0 (tokens src) (a\<lparr>CurrentFolder := Some (Dir E src)\<rparr>) = (c', f, a1)"
    by (cases "scanLoop E src None 0 (tokens src) (a\<lparr>CurrentFolder := Some (Dir E src)\<rparr>)") auto
  from scanLoop_None [of E src 0 "tokens src" "a\<lparr>CurrentFolder := Some (Dir E src)\<rparr>"] r
  have "c' = None" by simp
  with r show ?thesis by (simp add: processSource_def Let_def)
qed

lemma worker_Cons:
  "worker E c (s # srcs) a =
     (if ctx_Done c then (c, a)
      else worker E (fst (processSource E (ctx_tick c) s a)) srcs (snd (processSource E (ctx_tick c) s a)))"
  by (simp add: case_prod_beta)

lemma processSource_keeps_mark:
  "mget (processedPaths a) p False \<Longrightarrow> mget (processedPaths (snd (processSource E c src a))) p False"
  by (simp add: snd_processSource scanResult_frame mget_update)

lemma worker_keeps_mark:
  "mget (processedPaths a) p False \<Longrightarrow> mget (processedPaths (snd (worker E c srcs a))) p False"
proof (induction srcs arbitrary: c a)
  case Nil
  then show ?case by simp
next
  case (Cons s srcs)
  show ?case
  proof (cases "ctx_Done c")
    case True
    with Cons.prems show ?thesis by simp
  next
    case False
    obtain c' a' where ps: "processSource E (ctx_tick c) s a = (c', a')"
      by (cases "processSource E (ctx_tick c) s a") auto
    have "mget (processedPaths a') p False"
      using processSource_keeps_mark [OF Cons.prems, of E "ctx_tick c" s] ps by simp
    from Cons.IH [OF this] False ps show ?thesis by simp
  qed
qed

lemma worker_None_Cons:
  "worker E None (s # srcs) a = worker E None srcs (snd (processSource E None s a))"
  using processSource_None [of E s a]
  by (cases "processSource E None s a") (simp add: ctx_Done_def ctx_tick_def)

lemma worker_None_marks:
  "s \<in> set srcs \<Longrightarrow> \<not> openFails s \<Longrightarrow> \<not> scanFails s \<Longrightarrow>
   mget (processedPaths (snd (worker E None srcs a))) (Path s) False"
proof (induction srcs arbitrary: a)
  case Nil
  then show ?case by simp
next
  case (Cons x srcs)
  show ?case
  proof (cases "s = x")
    case True
    have "mget (processedPaths (snd (processSource E None x a))) (Path s) False"
      using True Cons.prems by (simp add: snd_processSource cancelSeen_def mget_update)
    from worker_keeps_mark [OF this] show ?thesis by (simp only: worker_None_Cons)
  next
    case False
    with Cons.prems have "s \<in> set srcs" by simp
    from Cons.IH [OF this Cons.prems(2,3)] show ?thesis by (simp only: worker_None_Cons)
  qed
qed

section \<open>Reports\<close>

lemma Run_worker:
  "0 < numWorkers a \<Longrightarrow>
   Run E c srcs a =
     Some (snd (worker E c srcs a),
           generateReport E srcs (ctx_Done (fst (worker E c srcs a)))
             (ValidateOnly (snd (worker E c srcs a))) (snd (worker E c srcs a)))"
  by (simp add: Run_def split: prod.splits)

lemma Run_report:
  "Run E c srcs a = Some (a', rep) \<Longrightarrow> \<exists>wc. rep = generateReport E srcs wc (ValidateOnly a') a'"
  by (auto simp: Run_def split: if_splits prod.splits)

lemma FolderDetails_generateReport:
  "FolderDetails (Summary (generateReport E srcs wc v a)) = foldl (folderStep E a) [] srcs"
  by (simp add: generateReport_def Let_def split: prod.splits)

lemma list_all_update:
  "list_all P m \<Longrightarrow> P (k, v) \<Longrightarrow> list_all P (AList.update k v m)"
  by (induction m) auto

lemma folderStep_filesOK:
  assumes "list_all filesOK fd"
  shows "list_all filesOK (folderStep E a fd s)"
proof -
  have old: "filesOK (Dir E s, mget fd (Dir E s) zeroDetail)"
    using mget_cases [of fd "Dir E s" zeroDetail] assms
    by (auto simp: filesOK_def zeroDetail_def list_all_iff)
  show ?thesis
    unfolding folderStep_def Let_def
    by (rule list_all_update [OF assms]) (use old in \<open>simp add: filesOK_def\<close>)
qed

lemma foldl_folderStep_filesOK:
  "list_all filesOK fd \<Longrightarrow> list_all filesOK (foldl (folderStep E a) fd srcs)"
  by (induction srcs arbitrary: fd) (simp_all add: folderStep_filesOK)

lemma folderBytes_Cons:
  "folderBytes E d (s # srcs) = (if Dir E s = d then Size s else 0) + folderBytes E d srcs"
  by (simp add: folderBytes_def)

lemma folderBytes_nonneg: "\<forall>s \<in> set srcs. 0 \<le> Size s \<Longrightarrow> 0 \<le> folderBytes E d srcs"
  by (induction srcs) (simp_all add: folderBytes_def)

lemma folderStep_bytesOK:
  assumes "list_all (bytesOK B) fd" "0 \<le> Size s" "0 \<le> B (Dir E s)" "B (Dir E s) + Size s < 2 ^ 63"
  shows "list_all (bytesOK (B(Dir E s := B (Dir E s) + Size s))) (folderStep E a fd s)"
proof -
  let ?d = "Dir E s" and ?old = "mget fd (Dir E s) zeroDetail"
  let ?B = "B(Dir E s := B (Dir E s) + Size s)"
  have old: "bytesOK B (?d, ?old)"
    using mget_cases [of fd ?d zeroDetail] assms(1,3)
    by (auto simp: bytesOK_def zeroDetail_def list_all_iff)
  then have t: "int64 (TotalSizeBytes ?old + Size s) = TotalSizeBytes ?old + Size s"
    using assms(2,4) by (intro int64_id) (simp_all add: bytesOK_def)
  from old have p: "int64 (ProcessedSizeBytes ?old + Size s) = ProcessedSizeBytes ?old + Size s"
    using assms(2,4) by (intro int64_id) (simp_all add: bytesOK_def)
  have rest: "list_all (bytesOK ?B) fd"
    using assms(1,2) by (auto simp: list_all_iff bytesOK_def)
  show ?thesis
    unfolding folderStep_def Let_def
    by (rule list_all_update [OF rest]) (use old assms(2) in \<open>simp add: bytesOK_def t p\<close>)
qed

lemma foldl_folderStep_bytesOK:
  assumes "\<forall>s \<in> set srcs. 0 \<le> Size s"
  shows "list_all (bytesOK B) fd \<Longrightarrow> \<forall>d. 0 \<le> B d \<Longrightarrow>
         \<forall>d. B d + folderBytes E d srcs < 2 ^ 63 \<Longrightarrow>
         \<exists>B'. list_all (bytesOK B') (foldl (folderStep E a) fd srcs)"
  using assms
proof (induction srcs arbitrary: fd B)
  case Nil
  then show ?case by auto
next
  case (Cons s srcs)
  let ?B = "B(Dir E s := B (Dir E s) + Size s)"
  have sz: "0 \<le> Size s" and rest: "\<forall>s \<in> set srcs. 0 \<le> Size s" using Cons.prems(4) by simp_all
  have "B (Dir E s) + folderBytes E (Dir E s) (s # srcs) < 2 ^ 63" using Cons.prems(3) by blast
  then have small: "B (Dir E s) + Size s < 2 ^ 63"
    using folderBytes_nonneg [OF rest, of E "Dir E s"] by (simp add: folderBytes_Cons)
  have 1: "list_all (bytesOK ?B) (folderStep E a fd s)"
    using Cons.prems(1) sz _ small by (rule folderStep_bytesOK) (use Cons.prems(2) in simp)
  have 2: "\<forall>d. 0 \<le> ?B d" using Cons.prems(2) sz by simp
  have 3: "\<forall>d. ?B d + folderBytes E d srcs < 2 ^ 63"
  proof
    fix d
    have "B d + folderBytes E d (s # srcs) < 2 ^ 63" using Cons.prems(3) by blast
    then show "?B d + folderBytes E d srcs < 2 ^ 63" by (auto simp: folderBytes_Cons)
  qed
  from Cons.IH [OF 1 2 3 rest] show ?case by simp
qed

text \<open>C6, as stated, fails when the sizes of one folder sum to \<open>2 ^ 63\<close> bytes or more:
  the int64 total wraps around and falls below the processed bytes. Here the folder
  has two sources of \<open>2 ^ 62\<close> bytes, the first processed, the second not opened. It
  fails as well when a source that is not processed reports a negative size, which
  lowers the total alone.\<close>

theorem folder_processed_bytes_above_total:
  "FolderDetails (Summary (snd (the (Run toyStd None [hugeA, hugeB] (New ''a'' 8 True False False)))))
     = [(''data'', \<lparr>ProcessedSizeBytes = 4611686018427387904, TotalSizeBytes = - 9223372036854775808,
           FilesProcessed = 1, TotalFiles = 2, KeysFound = 1, RowsProcessed = 1\<rparr>)]
   \<and> \<not> (4611686018427387904 :: int) \<le> - 9223372036854775808
   \<and> FolderDetails (Summary (snd (the (Run toyStd None [fileB, fileD\<lparr>Size := - 7, openFails := True\<rparr>]
        (New ''a'' 8 True False False)))))
     = [(''data'', \<lparr>ProcessedSizeBytes = 4, TotalSizeBytes = - 3,
           FilesProcessed = 1, TotalFiles = 2, KeysFound = 1, RowsProcessed = 1\<rparr>)]
   \<and> \<not> (4 :: int) \<le> - 3"
  by (simp add: run_defs hugeA_def hugeB_def int64_def)

text \<open>C6, amended. In the report of every run, cancelled or not and from any state of the
  engine, every folder entry has FilesProcessed at most TotalFiles; it has
  ProcessedSizeBytes at most TotalSizeBytes when no size is negative and the sizes of
  the sources of each folder sum to less than \<open>2 ^ 63\<close> bytes.\<close>

theorem folder_processed_le_total:
  assumes "Run E c srcs a = Some (a', rep)"
    and "(d, det) \<in> set (FolderDetails (Summary rep))"
  shows "FilesProcessed det \<le> TotalFiles det \<and>
         ((\<forall>s \<in> set srcs. 0 \<le> Size s) \<and> (\<forall>d. folderBytes E d srcs < 2 ^ 63) \<longrightarrow>
          ProcessedSizeBytes det \<le> TotalSizeBytes det)"
proof -
  from Run_report [OF assms(1)] obtain wc where "rep = generateReport E srcs wc (ValidateOnly a') a'" ..
  then have fd: "FolderDetails (Summary rep) = foldl (folderStep E a') [] srcs"
    by (simp add: FolderDetails_generateReport)
  have "list_all filesOK (foldl (folderStep E a') [] srcs)"
    by (rule foldl_folderStep_filesOK) simp
  with assms(2) fd have files: "FilesProcessed det \<le> TotalFiles det"
    by (auto simp: list_all_iff filesOK_def)
  have bytes: "ProcessedSizeBytes det \<le> TotalSizeBytes det"
    if h: "(\<forall>s \<in> set srcs. 0 \<le> Size s) \<and> (\<forall>d. folderBytes E d srcs < 2 ^ 63)"
  proof -
    from h have "\<exists>B'. list_all (bytesOK B') (foldl (folderStep E a') [] srcs)"
      by (intro foldl_folderStep_bytesOK [where B = "\<lambda>d. 0"]) simp_all
    with assms(2) fd show ?thesis by (auto simp: list_all_iff bytesOK_def)
  qed
  from files bytes show ?thesis by blast
qed

theorem folder_processed_le_total_witness:
  "(''data'', \<lparr>ProcessedSizeBytes = 4, TotalSizeBytes = 10, FilesProcessed = 1, TotalFiles = 2,
       KeysFound = 1, RowsProcessed = 1\<rparr>)
     \<in> set (FolderDetails (Summary (snd (the (Run toyStd (Some 2) [fileB, fileD] (New ''a'' 8 True False False))))))
   \<and> (1::int) \<le> 2 \<and> (4::int) \<le> 10"
proof -
  let ?r = "Run toyStd (Some 2) [fileB, fileD] (New ''a'' 8 True False False)"
  let ?D = "\<lparr>ProcessedSizeBytes = 4, TotalSizeBytes = 10, FilesProcessed = 1, TotalFiles = 2,
       KeysFound = 1, RowsProcessed = 1\<rparr>"
  have run: "?r = Some (fst (the ?r), snd (the ?r))"
    by (simp add: Run_def New_def split: prod.splits)
  have sizes: "(\<forall>s \<in> set [fileB, fileD]. 0 \<le> Size s) \<and> (\<forall>d. folderBytes toyStd d [fileB, fileD] < 2 ^ 63)"
    by (simp add: fileB_def fileD_def folderBytes_def)
  have mem: "(''data'', ?D) \<in> set (FolderDetails (Summary (snd (the ?r))))"
    by (simp add: run_defs)
  from folder_processed_le_total [OF run mem] sizes mem show ?thesis by simp
qed

text \<open>C5, as stated, fails for an open failure: a source whose Open fails is left
  unmarked, with nothing else wrong.\<close>

theorem open_failure_prevents_mark:
  "ProcessedFiles (snd (processSource toyStd None (fileB\<lparr>openFails := True\<rparr>) (New ''a'' 8 True True False))) = 0
   \<and> \<not> mget (processedPaths (snd (processSource toyStd None (fileB\<lparr>openFails := True\<rparr>)
            (New ''a'' 8 True True False)))) (Path fileB) False"
  by (simp add: run_defs)

text \<open>C5, amended. processSource marks the source (adds its path to the processed
  set and adds one to the counter of processed files) if and only if it opened, its
  scanner ended without an error, and no cancellation check of the scan saw the
  context closed; the checks stand before tokens 1, 1001, 2001, ... A line that does
  not decode has no part in this: the loop counts it and goes on with the next line.\<close>

theorem processSource_marks_iff:
  assumes "processSource E c src a = (c', a')"
  shows "(if \<not> openFails src \<and> \<not> scanFails src \<and>
            (case c of None \<Rightarrow> True | Some k \<Rightarrow> length (tokens src) \<le> 1000 * k)
          then ProcessedFiles a' = ProcessedFiles a + 1 \<and>
               processedPaths a' = AList.update (Path src) True (processedPaths a)
          else ProcessedFiles a' = ProcessedFiles a \<and> processedPaths a' = processedPaths a)
       \<and> (line \<noteq> [] \<and> json_Unmarshal E line = None \<and> \<not> (n mod 1000 = 0 \<and> ctx_Done k) \<longrightarrow>
            scanLoop E src k n (line # rest) b =
              scanLoop E src (if n mod 1000 = 0 then ctx_tick k else k) (n + 1) rest
                (b\<lparr>TotalRows := TotalRows b + 1,
                   rowsProcessedPerFolder := incr (Dir E src) (rowsProcessedPerFolder b)\<rparr>))"
proof -
  have cs: "cancelSeen c 0 (length (tokens src)) =
      (\<not> (case c of None \<Rightarrow> True | Some k \<Rightarrow> length (tokens src) \<le> 1000 * k))"
    by (cases c) (auto simp: cancelSeen_def)
  have a': "a' = snd (processSource E c src a)" using assms by simp
  have first: "(if \<not> openFails src \<and> \<not> scanFails src \<and>
            (case c of None \<Rightarrow> True | Some k \<Rightarrow> length (tokens src) \<le> 1000 * k)
          then ProcessedFiles a' = ProcessedFiles a + 1 \<and>
               processedPaths a' = AList.update (Path src) True (processedPaths a)
          else ProcessedFiles a' = ProcessedFiles a \<and> processedPaths a' = processedPaths a)"
    unfolding a' snd_processSource cs by (simp add: scanResult_frame)
  have second: "line \<noteq> [] \<and> json_Unmarshal E line = None \<and> \<not> (n mod 1000 = 0 \<and> ctx_Done k) \<longrightarrow>
            scanLoop E src k n (line # rest) b =
              scanLoop E src (if n mod 1000 = 0 then ctx_tick k else k) (n + 1) rest
                (b\<lparr>TotalRows := TotalRows b + 1,
                   rowsProcessedPerFolder := incr (Dir E src) (rowsProcessedPerFolder b)\<rparr>)"
    by (simp add: Let_def)
  from first second show ?thesis ..
qed

theorem processSource_marks_iff_witness:
  "processSource toyStd None \<lparr>Path = ''d/f'', Size = 2, openFails = False, tokens = [''!''], scanFails = False\<rparr>
       (New ''a'' 8 True True False)
     = (None, (New ''a'' 8 True True False)
          \<lparr>processedPaths := [(''d/f'', True)], ProcessedFiles := 1, TotalRows := 1,
           rowsProcessedPerFolder := [(''d'', 1)], CurrentFolder := Some ''d''\<rparr>)"
proof -
  let ?s = "\<lparr>Path = ''d/f'', Size = 2, openFails = False, tokens = [''!''], scanFails = False\<rparr>"
  let ?a = "New ''a'' 8 True True False"
  have p: "processSource toyStd None ?s ?a = (fst (processSource toyStd None ?s ?a), snd (processSource toyStd None ?s ?a))"
    by simp
  have c: "\<not> openFails ?s \<and> \<not> scanFails ?s \<and> (case None of None \<Rightarrow> True | Some k \<Rightarrow> length (tokens ?s) \<le> 1000 * k)"
    by simp
  have h: "''!'' \<noteq> [] \<and> json_Unmarshal toyStd ''!'' = None \<and> \<not> ((0::int) mod 1000 = 0 \<and> ctx_Done None)"
    by (simp add: toyStd_def ctx_Done_def)
  from processSource_marks_iff [OF p, of "''!''" 0 None "[]" "?a\<lparr>CurrentFolder := Some ''d''\<rparr>"] c h
  have "ProcessedFiles (snd (processSource toyStd None ?s ?a)) = 1"
    by (simp add: New_def)
  then show ?thesis
    by (simp add: run_defs)
qed

text \<open>C8, as stated, fails in three ways. In each the run is complete and not cancelled
  and a source of its list is still returned as unprocessed: a source that cannot be
  opened; a source whose stream ends in an error; any source when the engine has no
  worker, for then nothing is read.\<close>

theorem full_run_can_leave_sources_unprocessed:
  "map_option (\<lambda>(a', rep). GetUnprocessedSources a' [fileA\<lparr>openFails := True\<rparr>, fileB])
     (Run toyStd None [fileA\<lparr>openFails := True\<rparr>, fileB] (New ''a'' 8 True True False))
   = Some [fileA\<lparr>openFails := True\<rparr>]
   \<and> map_option (\<lambda>(a', rep). GetUnprocessedSources a' [fileA, fileC])
     (Run toyStd None [fileA, fileC] (New ''a'' 8 True True False)) = Some [fileC]
   \<and> map_option (\<lambda>(a', rep). GetUnprocessedSources a' [fileA])
     (Run toyStd None [fileA] (New ''a'' 0 True True False)) = Some [fileA]"
  by (simp add: run_defs)

text \<open>C8, amended. After a run that is not cancelled, of an engine with at least one
  worker, over sources that all open and scan without a stream error,
  GetUnprocessedSources of the same list is empty.\<close>

theorem full_run_leaves_nothing_unprocessed:
  assumes "0 < numWorkers a"
    and "\<forall>s \<in> set srcs. \<not> openFails s \<and> \<not> scanFails s"
    and "Run E None srcs a = Some (a', rep)"
  shows "GetUnprocessedSources a' srcs = []"
proof -
  from assms(1,3) have a': "a' = snd (worker E None srcs a)" by (simp add: Run_worker)
  have "mget (processedPaths a') (Path s) False" if "s \<in> set srcs" for s
    unfolding a' using that assms(2) by (intro worker_None_marks) auto
  then show ?thesis by (simp add: GetUnprocessedSources_def filter_empty_conv)
qed

theorem full_run_leaves_nothing_unprocessed_witness:
  "map_option (\<lambda>(a', rep). GetUnprocessedSources a' [fileA, fileB])
     (Run toyStd None [fileA, fileB] (New ''a'' 8 True True False)) = Some []"
proof -
  let ?a = "New ''a'' 8 True True False"
  let ?r = "Run toyStd None [fileA, fileB] ?a"
  have run: "?r = Some (fst (the ?r), snd (the ?r))"
    by (simp add: Run_def New_def split: prod.splits)
  have w: "0 < numWorkers ?a" by (simp add: New_def)
  have ok: "\<forall>s \<in> set [fileA, fileB]. \<not> openFails s \<and> \<not> scanFails s"
    by (simp add: fileA_def fileB_def)
  from full_run_leaves_nothing_unprocessed [OF w ok run]
  have "GetUnprocessedSources (fst (the ?r)) [fileA, fileB] = []" .
  then show ?thesis by (subst run) (simp add: case_prod_beta)
qed

section \<open>Line numbers and row counts\<close>

lemma numberFrom_zip:
  "numberFrom n ls = zip (map (\<lambda>i. n + int i) [1..<Suc (length ls)]) ls"
proof (induction ls arbitrary: n)
  case Nil
  then show ?case by simp
next
  case (Cons l ls)
  have "[1..<Suc (Suc (length ls))] = 1 # [Suc 1..<Suc (Suc (length ls))]"
    by (rule upt_conv_Cons) simp
  also have "[Suc 1..<Suc (Suc (length ls))] = map Suc [1..<Suc (length ls)]"
    by (simp only: map_Suc_upt)
  finally have "[1..<Suc (Suc (length ls))] = 1 # map Suc [1..<Suc (length ls)]" .
  then have "map (\<lambda>i. n + int i) [1..<Suc (length (l # ls))] =
      (n + 1) # map (\<lambda>i. (n + 1) + int i) [1..<Suc (length ls)]"
    by (simp add: comp_def add.assoc add.commute del: upt_Suc)
  then show ?case using Cons.IH [of "n + 1"] by (simp del: upt_Suc)
qed

lemma map_snd_numberFrom: "map snd (numberFrom n ls) = ls"
  by (induction ls arbitrary: n) simp_all

lemma length_filter_nonEmpty:
  "length (filter nonEmpty (take m (numberFrom n ls))) = length (filter (\<lambda>l. l \<noteq> []) (take m ls))"
proof -
  have "filter (\<lambda>l. l \<noteq> []) (map snd xs) = map snd (filter nonEmpty xs)" for xs :: "(int \<times> string) list"
    by (induction xs) (simp_all add: nonEmpty_def)
  from this [of "take m (numberFrom n ls)"] have
    "length (filter nonEmpty (take m (numberFrom n ls))) =
     length (filter (\<lambda>l. l \<noteq> []) (map snd (take m (numberFrom n ls))))" by simp
  then show ?thesis by (simp add: take_map [symmetric] map_snd_numberFrom)
qed

text \<open>C10. A scan that starts a source reads the tokens up to its cancellation
  check (all of them when the context stays open). The state it leaves is the fold of
  the step for one row over the non-empty tokens, each with its position in the whole
  token list, counted from 1: a zero-length line takes a line number and nothing else.
  The total-rows counter and the rows-processed counter of the folder each grow by
  the number of non-empty tokens read.\<close>

theorem scan_counts_nonempty_lines:
  "snd (snd (scanLoop E src c 0 ls a)) =
     foldl (lineStep E src) a
       (filter nonEmpty (take (scannedCount c 0 (length ls)) (zip (map int [1..<Suc (length ls)]) ls)))
   \<and> TotalRows (snd (snd (scanLoop E src c 0 ls a))) =
       TotalRows a + int (length (filter (\<lambda>l. l \<noteq> []) (take (scannedCount c 0 (length ls)) ls)))
   \<and> mget (rowsProcessedPerFolder (snd (snd (scanLoop E src c 0 ls a)))) (Dir E src) 0 =
       mget (rowsProcessedPerFolder a) (Dir E src) 0
         + int (length (filter (\<lambda>l. l \<noteq> []) (take (scannedCount c 0 (length ls)) ls)))"
proof -
  have z: "numberFrom 0 ls = zip (map int [1..<Suc (length ls)]) ls"
    using numberFrom_zip [of 0 ls] by simp
  have s: "snd (snd (scanLoop E src c 0 ls a)) =
     foldl (lineStep E src) a (filter nonEmpty (take (scannedCount c 0 (length ls)) (numberFrom 0 ls)))"
    by (simp add: snd_scanLoop_0)
  show ?thesis
    unfolding s foldl_lineStep_frame length_filter_nonEmpty unfolding z by simp
qed

theorem scan_counts_nonempty_lines_example:
  "snd (snd (scanLoop toyStd fileA None 0 [''ab'', '''', ''xy''] (New ''x'' 8 True False False))) =
     (New ''x'' 8 True False False)
       \<lparr>TotalRows := 2, rowsProcessedPerFolder := [(''data/a'', 2)],
        keysFoundPerFolder := [(''data/a'', 1)],
        idLocations := [(''y'', [\<lparr>FilePath = ''data/a/x.json'', LineNumber = 3\<rparr>])]\<rparr>"
  using scan_counts_nonempty_lines [of toyStd fileA None "[''ab'', '''', ''xy'']" "New ''x'' 8 True False False"]
  by (simp add: run_defs lineStep_def nonEmpty_def scannedCount_def)

section \<open>Averages\<close>














section \<open>Rows with the same content\<close>

lemma mget_appendLoc:
  "mget (appendLoc k loc m) h [] = (if h = k then mget m k [] @ [loc] else mget m h [])"
  by (simp add: appendLoc_def mget_update)

lemma processRow_keeps_hash:
  "loc \<in> set (mget (rowHashes a) h []) \<Longrightarrow> loc \<in> set (mget (rowHashes (processRow E d p n a)) h [])"
  by (auto simp: processRow_def hashRow_def Let_def mget_appendLoc split: option.splits)

lemma lineStep_keeps_hash:
  "loc \<in> set (mget (rowHashes a) h []) \<Longrightarrow> loc \<in> set (mget (rowHashes (lineStep E src a nl)) h [])"
  by (cases nl) (auto simp: lineStep_def Let_def intro: processRow_keeps_hash split: option.splits)

lemma foldl_lineStep_keeps_hash:
  "loc \<in> set (mget (rowHashes a) h []) \<Longrightarrow> loc \<in> set (mget (rowHashes (foldl (lineStep E src) a xs)) h [])"
  by (induction xs arbitrary: a) (simp_all add: lineStep_keeps_hash)

lemma processRow_adds_hash:
  "checkKey a \<Longrightarrow> checkRow a \<Longrightarrow> \<not> ValidateOnly a \<Longrightarrow>
   \<lparr>FilePath = p, LineNumber = n\<rparr> \<in> set (mget (rowHashes (processRow E d p n a)) (hashString E d) [])"
  by (auto simp: processRow_def hashRow_def Let_def mget_appendLoc split: option.splits)

lemma lineStep_adds_hash:
  "checkKey a \<Longrightarrow> checkRow a \<Longrightarrow> \<not> ValidateOnly a \<Longrightarrow> json_Unmarshal E l = Some d \<Longrightarrow>
   \<lparr>FilePath = Path src, LineNumber = n\<rparr>
     \<in> set (mget (rowHashes (lineStep E src a (n, l))) (hashString E d) [])"
  by (simp add: lineStep_def Let_def processRow_adds_hash)

lemma foldl_lineStep_adds_hash:
  "checkKey a \<Longrightarrow> checkRow a \<Longrightarrow> \<not> ValidateOnly a \<Longrightarrow> json_Unmarshal E l = Some d \<Longrightarrow>
   (n, l) \<in> set xs \<Longrightarrow>
   \<lparr>FilePath = Path src, LineNumber = n\<rparr>
     \<in> set (mget (rowHashes (foldl (lineStep E src) a xs)) (hashString E d) [])"
proof (induction xs arbitrary: a)
  case Nil
  then show ?case by simp
next
  case (Cons x xs)
  show ?case
  proof (cases "x = (n, l)")
    case True
    have "\<lparr>FilePath = Path src, LineNumber = n\<rparr>
        \<in> set (mget (rowHashes (lineStep E src a (n, l))) (hashString E d) [])"
      using Cons.prems by (intro lineStep_adds_hash)
    from foldl_lineStep_keeps_hash [OF this] True show ?thesis by simp
  next
    case False
    with Cons.prems have "(n, l) \<in> set xs" by simp
    from Cons.IH [OF _ _ _ Cons.prems(4) this, of "lineStep E src a x"] Cons.prems(1-3)
    show ?thesis by (simp add: lineStep_frame)
  qed
qed

lemma numberFrom_nth:
  "i < length ls \<Longrightarrow> (n + 1 + int i, ls ! i) \<in> set (numberFrom n ls)"
proof (induction ls arbitrary: n i)
  case Nil
  then show ?case by simp
next
  case (Cons l ls)
  show ?case
  proof (cases i)
    case 0
    then show ?thesis by simp
  next
    case (Suc j)
    with Cons.prems have "j < length ls" by simp
    from Cons.IH [OF this, of "n + 1"] Suc show ?thesis by (simp add: algebra_simps)
  qed
qed

lemma take_length_numberFrom: "take (length ls) (numberFrom n ls) = numberFrom n ls"
  by (induction ls arbitrary: n) simp_all

lemma processSource_keeps_hash:
  "loc \<in> set (mget (rowHashes a) h []) \<Longrightarrow>
   loc \<in> set (mget (rowHashes (snd (processSource E c src a))) h [])"
proof -
  assume m: "loc \<in> set (mget (rowHashes a) h [])"
  then have "loc \<in> set (mget (rowHashes (a\<lparr>CurrentFolder := Some (Dir E src)\<rparr>)) h [])" by simp
  from foldl_lineStep_keeps_hash [OF this]
  have "loc \<in> set (mget (rowHashes (scanResult E src c a)) h [])" by (simp add: scanResult_def)
  with m show ?thesis by (simp add: snd_processSource)
qed

lemma processSource_flags:
  "checkKey (snd (processSource E c src a)) = checkKey a"
  "checkRow (snd (processSource E c src a)) = checkRow a"
  "ValidateOnly (snd (processSource E c src a)) = ValidateOnly a"
  "uniqueKey (snd (processSource E c src a)) = uniqueKey a"
  "numWorkers (snd (processSource E c src a)) = numWorkers a"
  by (simp_all add: snd_processSource scanResult_frame)

lemma processSource_None_adds_hash:
  assumes "checkKey a" "checkRow a" "\<not> ValidateOnly a" "\<not> openFails src"
    and "i < length (tokens src)" "tokens src ! i \<noteq> []" "json_Unmarshal E (tokens src ! i) = Some d"
  shows "\<lparr>FilePath = Path src, LineNumber = int i + 1\<rparr>
     \<in> set (mget (rowHashes (snd (processSource E None src a))) (hashString E d) [])"
proof -
  have "(0 + 1 + int i, tokens src ! i) \<in> set (numberFrom 0 (tokens src))"
    using assms(5) by (rule numberFrom_nth)
  then have mem: "(int i + 1, tokens src ! i) \<in> set (filter nonEmpty (numberFrom 0 (tokens src)))"
    using assms(6) by (simp add: nonEmpty_def add.commute)
  have "\<lparr>FilePath = Path src, LineNumber = int i + 1\<rparr>
     \<in> set (mget (rowHashes (scanResult E src None a)) (hashString E d) [])"
    unfolding scanResult_def scannedCount_def
    using assms(1-3) mem
    by (intro foldl_lineStep_adds_hash [OF _ _ _ assms(7)]) (simp_all add: take_length_numberFrom)
  then show ?thesis using assms(4) by (simp add: snd_processSource cancelSeen_def)
qed

lemma worker_None_keeps_hash:
  "loc \<in> set (mget (rowHashes a) h []) \<Longrightarrow> loc \<in> set (mget (rowHashes (snd (worker E None srcs a))) h [])"
proof (induction srcs arbitrary: a)
  case Nil
  then show ?case by simp
next
  case (Cons s srcs)
  from Cons.IH [OF processSource_keeps_hash [OF Cons.prems]] show ?case
    by (simp only: worker_None_Cons)
qed

lemma worker_None_flags:
  "checkKey (snd (worker E None srcs a)) = checkKey a"
  "checkRow (snd (worker E None srcs a)) = checkRow a"
  "ValidateOnly (snd (worker E None srcs a)) = ValidateOnly a"
proof (induction srcs arbitrary: a)
  case Nil
  { case 1 show ?case by simp }
  { case 2 show ?case by simp }
  { case 3 show ?case by simp }
next
  case (Cons s srcs)
  { case 1 show ?case unfolding worker_None_Cons Cons.IH(1) by (simp add: processSource_flags) }
  { case 2 show ?case unfolding worker_None_Cons Cons.IH(2) by (simp add: processSource_flags) }
  { case 3 show ?case unfolding worker_None_Cons Cons.IH(3) by (simp add: processSource_flags) }
qed

lemma worker_None_adds_hash:
  assumes "checkKey a" "checkRow a" "\<not> ValidateOnly a" "src \<in> set srcs" "\<not> openFails src"
    and "i < length (tokens src)" "tokens src ! i \<noteq> []" "json_Unmarshal E (tokens src ! i) = Some d"
  shows "\<lparr>FilePath = Path src, LineNumber = int i + 1\<rparr>
     \<in> set (mget (rowHashes (snd (worker E None srcs a))) (hashString E d) [])"
  using assms(1-4)
proof (induction srcs arbitrary: a)
  case Nil
  then show ?case by simp
next
  case (Cons s srcs)
  show ?case
  proof (cases "s = src")
    case True
    have "\<lparr>FilePath = Path src, LineNumber = int i + 1\<rparr>
       \<in> set (mget (rowHashes (snd (processSource E None src a))) (hashString E d) [])"
      using Cons.prems(1-3) assms(5-8) by (intro processSource_None_adds_hash)
    from worker_None_keeps_hash [OF this] True show ?thesis by (simp only: worker_None_Cons)
  next
    case False
    with Cons.prems have m: "src \<in> set srcs" by simp
    have f: "checkKey (snd (processSource E None s a))" "checkRow (snd (processSource E None s a))"
      "\<not> ValidateOnly (snd (processSource E None s a))"
      using Cons.prems(1-3) by (simp_all add: processSource_flags)
    from Cons.IH [OF f m] show ?thesis by (simp only: worker_None_Cons)
  qed
qed

text \<open>In a run with both checks on, outside validation mode and not cancelled, two
  lines that decode to the same record are stored in the same by-hash group, the one
  of the hash of that record, whatever the two lines look like as text.\<close>

lemma same_record_same_hash_group:
  assumes "0 < numWorkers a" "checkKey a" "checkRow a" "\<not> ValidateOnly a"
    and "Run E None srcs a = Some (a', rep)"
    and "s1 \<in> set srcs" "\<not> openFails s1" "i < length (tokens s1)" "tokens s1 ! i \<noteq> []"
    and "s2 \<in> set srcs" "\<not> openFails s2" "j < length (tokens s2)" "tokens s2 ! j \<noteq> []"
    and "json_Unmarshal E (tokens s1 ! i) = Some d" "json_Unmarshal E (tokens s2 ! j) = Some d"
  shows "\<lparr>FilePath = Path s1, LineNumber = int i + 1\<rparr> \<in> set (mget (rowHashes a') (hashString E d) [])
       \<and> \<lparr>FilePath = Path s2, LineNumber = int j + 1\<rparr> \<in> set (mget (rowHashes a') (hashString E d) [])"
proof -
  from assms(1,5) have a': "a' = snd (worker E None srcs a)" by (simp add: Run_worker)
  show ?thesis
    unfolding a'
    using worker_None_adds_hash [OF assms(2-4) assms(6-9) assms(14)]
      worker_None_adds_hash [OF assms(2-4) assms(10-13) assms(15)]
    by simp
qed

lemma same_record_same_hash_group_example:
  "\<lparr>FilePath = Path fileA, LineNumber = int 0 + 1\<rparr>
      \<in> set (mget (rowHashes (fst (the (Run toyStd None [fileA, fileC] (New ''a'' 8 True True False))))) (hashString toyStd ''ab'') [])
   \<and> \<lparr>FilePath = Path fileC, LineNumber = int 1 + 1\<rparr>
      \<in> set (mget (rowHashes (fst (the (Run toyStd None [fileA, fileC] (New ''a'' 8 True True False))))) (hashString toyStd ''ab'') [])
   \<and> tokens fileA ! 0 = ''ab'' \<and> tokens fileC ! 1 = ''ba''"
proof -
  let ?a = "New ''a'' 8 True True False"
  let ?r = "Run toyStd None [fileA, fileC] ?a"
  have run: "?r = Some (fst (the ?r), snd (the ?r))"
    by (simp add: Run_def New_def split: prod.splits)
  have fl: "0 < numWorkers ?a" "checkKey ?a" "checkRow ?a" "\<not> ValidateOnly ?a"
    by (simp_all add: New_def)
  have s1: "fileA \<in> set [fileA, fileC]" "\<not> openFails fileA" "0 < length (tokens fileA)" "tokens fileA ! 0 \<noteq> []"
    by (simp_all add: fileA_def)
  have s2: "fileC \<in> set [fileA, fileC]" "\<not> openFails fileC" "1 < length (tokens fileC)" "tokens fileC ! 1 \<noteq> []"
    by (simp_all add: fileC_def)
  have d: "json_Unmarshal toyStd (tokens fileA ! 0) = Some ''ab''" "json_Unmarshal toyStd (tokens fileC ! 1) = Some ''ab''"
    by (simp_all add: toyStd_def fileA_def fileC_def)
  from same_record_same_hash_group [OF fl run s1 s2 d] show ?thesis
    by (simp add: fileA_def fileC_def)
qed

text \<open>C4. With the row check on and the key check off, two lines of one source that
  decode to the same record are both read and land in no by-hash group: processRow
  returns before it hashes (the defect of C1), and the by-hash groups stay empty.\<close>

theorem equal_rows_ungrouped_without_key_check:
  "json_Unmarshal toyStd ''ab'' = Some ''ab'' \<and> json_Unmarshal toyStd ''ba'' = Some ''ab''
   \<and> map_option (\<lambda>(a, rep). (rowHashes a, mget (rowHashes a) (hashString toyStd ''ab'') [],
                                 TotalRows a, ProcessedFiles a))
        (Run toyStd None
           [\<lparr>Path = ''d/f2'', Size = 6, openFails = False, tokens = [''ab'', ''ba''], scanFails = False\<rparr>]
           (New ''a'' 8 False True False)) = Some ([], [], 2, 1)"
  by (simp add: run_defs)

section \<open>Validation mode\<close>


















lemma worker_invariant:
  assumes "\<And>c s a. s \<in> set srcs \<Longrightarrow> P a \<Longrightarrow> P (snd (processSource E c s a))"
  shows "P a \<Longrightarrow> P (snd (worker E c srcs a))"
  using assms
proof (induction srcs arbitrary: c a)
  case Nil
  then show ?case by simp
next
  case (Cons s srcs)
  show ?case
  proof (cases "ctx_Done c")
    case True
    with Cons.prems show ?thesis by simp
  next
    case False
    have "P (snd (processSource E (ctx_tick c) s a))"
      using Cons.prems by simp
    then have "P (snd (worker E (fst (processSource E (ctx_tick c) s a)) srcs
        (snd (processSource E (ctx_tick c) s a))))"
      using Cons.prems(2) by (intro Cons.IH) simp_all
    with False show ?thesis by (simp only: worker_Cons if_False)
  qed
qed













lemma Run_cases:
  assumes "Run E c srcs a = Some (a', rep)"
  obtains (idle) wc where "numWorkers a = 0" "a' = a" "rep = generateReport E srcs wc (ValidateOnly a) a"
  | (work) wc where "0 < numWorkers a" "a' = snd (worker E c srcs a)"
      "rep = generateReport E srcs wc (ValidateOnly a') a'"
proof (cases "numWorkers a = 0")
  case True
  with assms show ?thesis by (intro idle) (auto simp: Run_def)
next
  case False
  with assms have w: "0 < numWorkers a" by (auto simp: Run_def split: if_splits)
  with assms show ?thesis by (intro work) (auto simp: Run_worker)
qed







section \<open>Cancel and continue\<close>

lemma processRow_ids_eq:
  "idLocations (processRow E d p n a) =
     (if checkKey a \<and> \<not> ValidateOnly a
      then (case map_index E d (uniqueKey a) of
              None \<Rightarrow> idLocations a
            | Some v \<Rightarrow> appendLoc (fmt_Sprint E v) \<lparr>FilePath = p, LineNumber = n\<rparr> (idLocations a))
      else idLocations a)"
  by (auto simp: processRow_def hashRow_def Let_def split: option.splits)

lemma lineStep_ids_eq:
  "idLocations (lineStep E src a (n, l)) =
     (case json_Unmarshal E l of
        None \<Rightarrow> idLocations a
      | Some d \<Rightarrow>
          if checkKey a \<and> \<not> ValidateOnly a
          then (case map_index E d (uniqueKey a) of
                  None \<Rightarrow> idLocations a
                | Some v \<Rightarrow> appendLoc (fmt_Sprint E v) \<lparr>FilePath = Path src, LineNumber = n\<rparr> (idLocations a))
          else idLocations a)"
  by (simp add: lineStep_def Let_def processRow_ids_eq split: option.splits)

lemma foldl_lineStep_no_key:
  assumes "json_Unmarshal E l = Some d" "map_index E d k = None"
  shows "uniqueKey a = k \<Longrightarrow> list_all (\<lambda>nl. snd nl = l) xs \<Longrightarrow>
         idLocations (foldl (lineStep E src) a xs) = idLocations a"
proof (induction xs arbitrary: a)
  case Nil
  show ?case by simp
next
  case (Cons x xs)
  obtain n where x: "x = (n, l)" using Cons.prems(2) by (cases x) simp
  have 1: "idLocations (lineStep E src a x) = idLocations a"
    unfolding x lineStep_ids_eq using assms Cons.prems(1) by simp
  have "idLocations (foldl (lineStep E src) (lineStep E src a x) xs) = idLocations (lineStep E src a x)"
    using Cons.prems by (intro Cons.IH) (simp_all add: lineStep_frame)
  with 1 show ?case by simp
qed

lemma numberFrom_replicate: "list_all (\<lambda>nl. snd nl = l) (numberFrom n (replicate m l))"
  by (induction m arbitrary: n) simp_all

lemma list_all_take_filter:
  "list_all P xs \<Longrightarrow> list_all P (filter Q (take m xs))"
  by (auto simp: list_all_iff dest: in_set_takeD)

lemma scan_first_row_only:
  assumes "checkKey a" "\<not> ValidateOnly a" "tokens src = l # replicate n l'" "l \<noteq> []"
    and "json_Unmarshal E l = Some d" "map_index E d (uniqueKey a) = Some v"
    and "json_Unmarshal E l' = Some d'" "map_index E d' (uniqueKey a) = None"
    and "scannedCount c 0 (Suc n) = Suc m"
  shows "idLocations (scanResult E src c a) =
     appendLoc (fmt_Sprint E v) \<lparr>FilePath = Path src, LineNumber = 1\<rparr> (idLocations a)"
proof -
  let ?a0 = "a\<lparr>CurrentFolder := Some (Dir E src)\<rparr>"
  let ?rest = "filter nonEmpty (take m (numberFrom 1 (replicate n l')))"
  have r: "list_all (\<lambda>nl. snd nl = l') ?rest"
    by (rule list_all_take_filter) (rule numberFrom_replicate)
  have "scanResult E src c a = foldl (lineStep E src) (lineStep E src ?a0 (1, l)) ?rest"
    using assms(3,4,9) by (simp add: scanResult_def nonEmpty_def)
  moreover have "idLocations (foldl (lineStep E src) (lineStep E src ?a0 (1, l)) ?rest) =
      idLocations (lineStep E src ?a0 (1, l))"
    using r by (intro foldl_lineStep_no_key [OF assms(7,8)]) (simp_all add: lineStep_frame)
  moreover have "idLocations (lineStep E src ?a0 (1, l)) =
      appendLoc (fmt_Sprint E v) \<lparr>FilePath = Path src, LineNumber = 1\<rparr> (idLocations a)"
    unfolding lineStep_ids_eq using assms(1,2,5,6) by simp
  ultimately show ?thesis by simp
qed

lemma DuplicateIDs_generateReport:
  "DuplicateIDs (generateReport E srcs wc False a) =
     (if checkKey a then fst (snd (snd (idLoop (filepath_Dir E) (idLocations a) (0, 0, [], [])))) else [])"
  by (simp add: generateReport_def Let_def case_prod_beta)

lemma worker_single:
  "\<not> ctx_Done c \<Longrightarrow> snd (worker E c [s] a) = snd (processSource E (ctx_tick c) s a)"
  by (simp add: case_prod_beta)

lemma bigFile_scan:
  assumes "checkKey a" "\<not> ValidateOnly a" "uniqueKey a = ''a''" "c = None \<or> c = Some 1"
  shows "idLocations (scanResult toyStd bigFile c a) =
     appendLoc ''b'' \<lparr>FilePath = ''d/big'', LineNumber = 1\<rparr> (idLocations a)"
proof -
  have sc: "scannedCount c 0 (Suc 1000) = Suc (if c = None then 1000 else 999)"
    using assms(4) by (auto simp: scannedCount_def)
  have "idLocations (scanResult toyStd bigFile c a) =
     appendLoc (fmt_Sprint toyStd ''b'') \<lparr>FilePath = Path bigFile, LineNumber = 1\<rparr> (idLocations a)"
    by (rule scan_first_row_only [OF assms(1,2) _ _ _ _ _ _ sc, where l = "''ab''" and l' = "''xy''"
          and d = "''ab''" and d' = "''xy''"])
      (simp_all add: bigFile_def toyStd_def assms(3))
  then show ?thesis by (simp add: toyStd_def bigFile_def)
qed

lemma worker_None_append:
  "worker E None (xs @ ys) a = worker E None ys (snd (worker E None xs a))"
proof (induction xs arbitrary: a)
  case Nil
  show ?case by simp
next
  case (Cons x xs)
  have "worker E None ((x # xs) @ ys) a = worker E None (xs @ ys) (snd (processSource E None x a))"
    by (simp only: append_Cons worker_None_Cons)
  also have "\<dots> = worker E None ys (snd (worker E None xs (snd (processSource E None x a))))"
    by (rule Cons.IH)
  also have "\<dots> = worker E None ys (snd (worker E None (x # xs) a))"
    by (simp only: worker_None_Cons)
  finally show ?case .
qed

lemma processSource_marks_only_own:
  "mget (processedPaths (snd (processSource E c s a))) p False \<Longrightarrow>
   mget (processedPaths a) p False \<or> p = Path s"
  by (auto simp: snd_processSource scanResult_frame mget_update split: if_splits)

lemma worker_marks_only_own:
  "mget (processedPaths (snd (worker E c srcs a))) p False \<Longrightarrow>
   mget (processedPaths a) p False \<or> p \<in> Path ` set srcs"
proof (induction srcs arbitrary: c a)
  case Nil
  then show ?case by simp
next
  case (Cons s srcs)
  show ?case
  proof (cases "ctx_Done c")
    case True
    with Cons.prems show ?thesis by simp
  next
    case False
    with Cons.prems have "mget (processedPaths (snd (worker E (fst (processSource E (ctx_tick c) s a)) srcs
        (snd (processSource E (ctx_tick c) s a))))) p False"
      by (simp only: worker_Cons if_False)
    from Cons.IH [OF this] processSource_marks_only_own [of E "ctx_tick c" s a p]
    show ?thesis by auto
  qed
qed

lemma worker_numWorkers: "numWorkers (snd (worker E c srcs a)) = numWorkers a"
proof -
  have "numWorkers (snd (worker E c srcs a)) = numWorkers a"
    by (rule worker_invariant [where P = "\<lambda>b. numWorkers b = numWorkers a"])
      (simp_all add: processSource_flags)
  then show ?thesis .
qed

lemma duplicates_generateReport:
  "DuplicateIDs (generateReport E srcs wc v a) = DuplicateIDs (generateReport E srcs' wc' v a)"
  "DuplicateRows (generateReport E srcs wc v a) = DuplicateRows (generateReport E srcs' wc' v a)"
  by (simp_all add: generateReport_def Let_def case_prod_beta)

text \<open>When the first run reads whole sources only (here: the sources \<open>xs\<close>, all of
  which open and scan to their end) on an engine with no processed path, the
  unprocessed sources of the list are the others, and the Continue run over them ends
  in the very state of one run over the whole list, so both report the same duplicate
  groups.\<close>

lemma continue_after_whole_sources:
  assumes "0 < numWorkers a" "processedPaths a = []"
    and "\<forall>s \<in> set xs. \<not> openFails s \<and> \<not> scanFails s"
    and "distinct (map Path (xs @ ys))"
    and "Run E None xs a = Some (a1, r1)"
    and "Run E None (GetUnprocessedSources a1 (xs @ ys)) a1 = Some (a2, r2)"
    and "Run E None (xs @ ys) a = Some (a3, r3)"
  shows "GetUnprocessedSources a1 (xs @ ys) = ys \<and> a2 = a3 \<and>
         DuplicateIDs r2 = DuplicateIDs r3 \<and> DuplicateRows r2 = DuplicateRows r3"
proof -
  from assms(1,5) have a1: "a1 = snd (worker E None xs a)" by (simp add: Run_worker)
  have w1: "0 < numWorkers a1"
    unfolding a1 worker_numWorkers by (rule assms(1))
  have mx: "mget (processedPaths a1) (Path s) False" if "s \<in> set xs" for s
    unfolding a1 using that assms(3) by (intro worker_None_marks) auto
  have my: "\<not> mget (processedPaths a1) (Path s) False" if "s \<in> set ys" for s
  proof
    assume "mget (processedPaths a1) (Path s) False"
    from worker_marks_only_own [OF this [unfolded a1]] assms(2)
    have "Path s \<in> Path ` set xs" by (simp add: mget_def)
    with that assms(4) show False by auto
  qed
  have unp: "GetUnprocessedSources a1 (xs @ ys) = ys"
    using mx my by (simp add: GetUnprocessedSources_def filter_empty_conv filter_id_conv)
  from assms(6) w1 have a2: "a2 = snd (worker E None ys a1)"
    and r2: "r2 = generateReport E ys (ctx_Done (fst (worker E None ys a1))) (ValidateOnly a2) a2"
    unfolding unp by (auto simp: Run_worker)
  from assms(7,1) have a3: "a3 = snd (worker E None (xs @ ys) a)"
    and r3: "r3 = generateReport E (xs @ ys) (ctx_Done (fst (worker E None (xs @ ys) a))) (ValidateOnly a3) a3"
    by (auto simp: Run_worker)
  have eq: "a2 = a3" unfolding a2 a3 a1 by (simp only: worker_None_append)
  show ?thesis
    using unp eq
    by (auto simp: r2 r3 intro: duplicates_generateReport)
qed

lemma continue_after_whole_sources_example:
  "GetUnprocessedSources (fst (the (Run toyStd None [fileA] (New ''a'' 8 True True False)))) ([fileA] @ [fileB])
     = [fileB]
   \<and> DuplicateIDs (snd (the (Run toyStd None [fileB] (fst (the (Run toyStd None [fileA] (New ''a'' 8 True True False)))))))
     = DuplicateIDs (snd (the (Run toyStd None ([fileA] @ [fileB]) (New ''a'' 8 True True False))))"
proof -
  let ?A = "New ''a'' 8 True True False"
  let ?r1 = "Run toyStd None [fileA] ?A"
  let ?a1 = "fst (the ?r1)"
  let ?r3 = "Run toyStd None ([fileA] @ [fileB]) ?A"
  have A: "0 < numWorkers ?A" "processedPaths ?A = []" by (simp_all add: New_def)
  have ok: "\<forall>s \<in> set [fileA]. \<not> openFails s \<and> \<not> scanFails s" by (simp add: fileA_def)
  have di: "distinct (map Path ([fileA] @ [fileB]))" by (simp add: fileA_def fileB_def)
  have run1: "?r1 = Some (?a1, snd (the ?r1))" by (simp add: Run_def New_def split: prod.splits)
  have run3: "?r3 = Some (fst (the ?r3), snd (the ?r3))" by (simp add: Run_def New_def split: prod.splits)
  have w1: "0 \<le> numWorkers ?a1"
    using A(1) by (simp add: Run_worker worker_numWorkers del: worker.simps)
  let ?r2 = "Run toyStd None (GetUnprocessedSources ?a1 ([fileA] @ [fileB])) ?a1"
  have run2: "?r2 = Some (fst (the ?r2), snd (the ?r2))"
    using w1 by (simp add: Run_def split: prod.splits)
  note th = continue_after_whole_sources [OF A ok di run1 run2 run3]
  from th have u: "GetUnprocessedSources ?a1 ([fileA] @ [fileB]) = [fileB]" by (rule conjunct1)
  have d: "DuplicateIDs (snd (the ?r2)) = DuplicateIDs (snd (the ?r3))"
    by (rule th [THEN conjunct2, THEN conjunct2, THEN conjunct1])
  from u d [unfolded u] show ?thesis by (rule conjI)
qed

text \<open>C2. The key check is on for the key \<open>a\<close>. A first run over the source of
  1001 lines is cancelled after its scan has started: the check before line 1001 ends
  the scan, 1000 rows are classified, and the source is not marked, so
  GetUnprocessedSources returns it. The Continue run on the same state scans it from
  line 1 and stores the location of line 1 a second time: the report lists the key of
  that row as a duplicate, with one location twice. One run that is not interrupted
  reports no duplicate key for the same source.\<close>

theorem continue_repeats_rows_of_cancelled_source:
  "map_option (\<lambda>(a1, r1). GetUnprocessedSources a1 [bigFile])
      (Run toyStd (Some 2) [bigFile] (New ''a'' 8 True False False)) = Some [bigFile]
   \<and> DuplicateIDs (snd (the (Run toyStd None [bigFile]
        (fst (the (Run toyStd (Some 2) [bigFile] (New ''a'' 8 True False False)))))))
      = [(''b'', [\<lparr>FilePath = ''d/big'', LineNumber = 1\<rparr>, \<lparr>FilePath = ''d/big'', LineNumber = 1\<rparr>])]
   \<and> DuplicateIDs (snd (the (Run toyStd None [bigFile] (New ''a'' 8 True False False)))) = []"
proof -
  let ?A = "New ''a'' 8 True False False"
  let ?loc = "\<lparr>FilePath = ''d/big'', LineNumber = 1\<rparr>"
  have A: "0 < numWorkers ?A" "checkKey ?A" "\<not> ValidateOnly ?A" "uniqueKey ?A = ''a''"
    "idLocations ?A = []" "processedPaths ?A = []"
    by (simp_all add: New_def)
  have big: "\<not> openFails bigFile" "\<not> scanFails bigFile" "length (tokens bigFile) = 1001"
    by (simp_all add: bigFile_def)
  \<comment> \<open>the first run: cancelled at the check before line 1001\<close>
  let ?a1 = "scanResult toyStd bigFile (Some 1) ?A"
  have run1: "Run toyStd (Some 2) [bigFile] ?A =
      Some (?a1, generateReport toyStd [bigFile] (ctx_Done (fst (worker toyStd (Some 2) [bigFile] ?A)))
                   (ValidateOnly ?a1) ?a1)"
    using A(1) big
    by (simp add: Run_worker worker_single snd_processSource ctx_Done_def ctx_tick_def cancelSeen_def
        del: worker.simps)
  have a1: "0 < numWorkers ?a1" "checkKey ?a1" "\<not> ValidateOnly ?a1" "uniqueKey ?a1 = ''a''"
    "processedPaths ?a1 = []"
    using A by (simp_all add: scanResult_frame)
  have ids1: "idLocations ?a1 = [(''b'', [?loc])]"
    using bigFile_scan [OF A(2,3,4), of "Some 1"] A(5) by (simp add: appendLoc_def mget_def)
  have unp: "GetUnprocessedSources ?a1 [bigFile] = [bigFile]"
    using a1(5) by (simp add: GetUnprocessedSources_def mget_def)
  \<comment> \<open>the Continue run over the unprocessed sources\<close>
  let ?s2 = "scanResult toyStd bigFile None ?a1"
  let ?a2 = "?s2\<lparr>processedPaths := AList.update (Path bigFile) True (processedPaths ?s2),
                 ProcessedFiles := ProcessedFiles ?s2 + 1\<rparr>"
  have run2: "Run toyStd None [bigFile] ?a1 =
      Some (?a2, generateReport toyStd [bigFile] (ctx_Done (fst (worker toyStd None [bigFile] ?a1)))
                   (ValidateOnly ?a2) ?a2)"
    using a1(1) big
    by (simp add: Run_worker worker_single snd_processSource ctx_Done_def ctx_tick_def cancelSeen_def
        del: worker.simps)
  have ids2: "idLocations ?a2 = [(''b'', [?loc, ?loc])]"
    using bigFile_scan [OF a1(2,3,4), of None] ids1 by (simp add: appendLoc_def mget_def)
  have fl2: "checkKey ?a2" "\<not> ValidateOnly ?a2" using a1 by (simp_all add: scanResult_frame)
  have d2: "DuplicateIDs (snd (the (Run toyStd None [bigFile] ?a1))) = [(''b'', [?loc, ?loc])]"
    unfolding run2 using fl2 ids2 by (simp add: DuplicateIDs_generateReport)
  \<comment> \<open>one run that is not interrupted\<close>
  let ?s3 = "scanResult toyStd bigFile None ?A"
  let ?a3 = "?s3\<lparr>processedPaths := AList.update (Path bigFile) True (processedPaths ?s3),
                 ProcessedFiles := ProcessedFiles ?s3 + 1\<rparr>"
  have run3: "Run toyStd None [bigFile] ?A =
      Some (?a3, generateReport toyStd [bigFile] (ctx_Done (fst (worker toyStd None [bigFile] ?A)))
                   (ValidateOnly ?a3) ?a3)"
    using A(1) big
    by (simp add: Run_worker worker_single snd_processSource ctx_Done_def ctx_tick_def cancelSeen_def
        del: worker.simps)
  have ids3: "idLocations ?a3 = [(''b'', [?loc])]"
    using bigFile_scan [OF A(2,3,4), of None] A(5) by (simp add: appendLoc_def mget_def)
  have fl3: "checkKey ?a3" "\<not> ValidateOnly ?a3" using A by (simp_all add: scanResult_frame)
  have d3: "DuplicateIDs (snd (the (Run toyStd None [bigFile] ?A))) = []"
    unfolding run3 using fl3 ids3 by (simp add: DuplicateIDs_generateReport)
  show ?thesis
    using unp d2 d3 by (simp add: run1)
qed

end
